theory Spec2Isabelle
  imports Main
begin

section \<open>Data model of the DASH validator (index.js)\<close>

text \<open>
  The JavaScript values that reach a report or a rejection: \<open>Undefined\<close> is a property
  that was never assigned, \<open>Str\<close> a string, \<open>TypeError\<close> the error the engine raises when
  a property of \<open>undefined\<close> is read, \<open>Error\<close> any other error object, by its message.
\<close>

datatype jsval = Undefined | Str string | TypeError | Error string

text \<open>
  HTTP response headers: an object from lower-cased header name to string value. A name
  that is absent reads as \<open>undefined\<close>, here \<open>None\<close>.
\<close>

type_synonym headers = "string \<rightharpoonup> string"

text \<open>
  The manifest the parser hands over. \<open>mtype\<close> is its \<open>type\<close>, a JavaScript string
  that the code compares with \<open>"static"\<close> and \<open>"dynamic"\<close>. Times are integer milliseconds since the epoch, as
  \<open>Date.getTime\<close> gives them.
\<close>

record manifest =
  mtype :: string
  totalDuration :: int
  timeAtHead :: int
  segments :: "string list"

text \<open>
  The validator object. The constructor leaves \<open>_manifest\<close>, \<open>_manifestHeaders\<close> and
  \<open>_runner\<close> undefined (\<open>None\<close>) until \<open>load\<close> has resolved. The runner lives in
  lib/dash_validator_runner.js and is kept abstract: \<open>'r\<close> is its state.
\<close>

record 'r dashValidator =
  src :: string
  manifest :: "manifest option"
  base :: string
  manifestHeaders :: "headers option"
  runner :: "'r option"

definition constructor :: "string \<Rightarrow> 'r dashValidator" where
  "constructor s =
     \<lparr>src = s, manifest = None, base = [], manifestHeaders = None, runner = None\<rparr>"

section \<open>verifyTimestamps\<close>

record timestampResult =
  clock :: string
  clockOffset :: "int option"

text \<open>
  \<open>allowedDiff || 10000\<close>: an omitted argument (\<open>None\<close>) and the falsy number \<open>0\<close> both
  give the default.
\<close>

definition diffCriteria :: "int option \<Rightarrow> int" where
  "diffCriteria allowedDiff =
     (case allowedDiff of
        None \<Rightarrow> 10000
      | Some a \<Rightarrow> if a = 0 then 10000 else a)"

text \<open>
  \<open>now\<close> is the value of \<open>new Date().getTime()\<close> when the check runs. Reading
  \<open>this._manifest.type\<close> before \<open>load\<close> raises a TypeError inside the promise, which
  rejects with it (\<open>Inl\<close>); otherwise the promise resolves (\<open>Inr\<close>).
\<close>

definition verifyTimestamps ::
  "'r dashValidator \<Rightarrow> int \<Rightarrow> int option \<Rightarrow> jsval + timestampResult" where
  "verifyTimestamps v now allowedDiff =
     (case manifest v of
        None \<Rightarrow> Inl TypeError
      | Some m \<Rightarrow>
          if mtype m = ''static'' then Inr \<lparr>clock = ''OK'', clockOffset = None\<rparr>
          else if \<bar>timeAtHead m - now\<bar> > diffCriteria allowedDiff
            then Inr \<lparr>clock = ''BAD'', clockOffset = Some \<bar>timeAtHead m - now\<bar>\<rparr>
            else Inr \<lparr>clock = ''OK'', clockOffset = Some \<bar>timeAtHead m - now\<bar>\<rparr>)"

section \<open>Default policies\<close>

text \<open>
  \<open>String.prototype.split\<close> with a one-character separator: the pieces between the
  separators, nothing trimmed; the empty string gives one empty piece.
\<close>

fun split_on :: "char \<Rightarrow> string \<Rightarrow> string list" where
  "split_on sep [] = [[]]"
| "split_on sep (c # cs) =
     (if c = sep then [] # split_on sep cs
      else (c # hd (split_on sep cs)) # tl (split_on sep cs))"

text \<open>
  The default segment predicate. \<open>Inl\<close> is a thrown value: calling \<open>split\<close> on a header
  that is absent raises a TypeError. The three tests are the operands of \<open>||\<close>, in the
  source's order, so a later one is evaluated only when the earlier ones are false.
\<close>

definition defaultVerifyFn :: "headers \<Rightarrow> jsval + bool" where
  "defaultVerifyFn hs =
     (if hs ''cache-control'' = None then Inr False
      else (case hs ''access-control-expose-headers'' of
        None \<Rightarrow> Inl TypeError
      | Some e \<Rightarrow>
          if ''Date'' \<notin> set (split_on CHR '','' e) then Inr False
          else (case hs ''access-control-allow-headers'' of
            None \<Rightarrow> Inl TypeError
          | Some a \<Rightarrow>
              if ''origin'' \<notin> set (split_on CHR '','' a) then Inr False else Inr True)))"








section \<open>The segment verification pipeline\<close>

text \<open>
  What a run does to the outside world, in order: the requests it sends and its calls of
  \<open>util.sleep\<close>. The log of these events is the state of the world that the run
  threads through; only the functions of lib/util.js below add to it.
\<close>

datatype request = RequestHeaders string | RequestCacheFill string

datatype event = Request request | Sleep nat

fun is_request :: "event \<Rightarrow> bool" where
  "is_request (Request _) = True"
| "is_request (Sleep _) = False"

text \<open>
  The network is a parameter: its answer to the \<open>k\<close>-th request of a run (counted from
  0). \<open>Inr\<close> is the headers the request's promise resolves with, \<open>Inl\<close> the value it
  rejects with; the same URI may answer differently each time. A request that throws
  before it returns a promise, or whose promise never settles, is outside this model.
\<close>

type_synonym network = "nat \<Rightarrow> request \<Rightarrow> jsval + headers"

text \<open>
  Modelled from the spec: \<open>util.requestHeaders\<close> (lib/util.js is missing), the HEAD
  fetch that returns the response headers. It sends the request, which the log records,
  and settles with the network's answer.
\<close>

definition requestHeaders ::
  "network \<Rightarrow> string \<Rightarrow> event list \<Rightarrow> (jsval + headers) \<times> event list" where
  "requestHeaders net url evs =
     (net (length (filter is_request evs)) (RequestHeaders url),
      evs @ [Request (RequestHeaders url)])"

text \<open>
  Modelled from the spec: \<open>util.requestCacheFill\<close> (lib/util.js is missing), the GET
  fetch that consumes the body and returns the response headers.
\<close>

definition requestCacheFill ::
  "network \<Rightarrow> string \<Rightarrow> event list \<Rightarrow> (jsval + headers) \<times> event list" where
  "requestCacheFill net url evs =
     (net (length (filter is_request evs)) (RequestCacheFill url),
      evs @ [Request (RequestCacheFill url)])"

text \<open>
  Modelled from the spec: \<open>util.sleep\<close> (lib/util.js is missing). Only the call is
  recorded; the model has no clock.
\<close>

definition sleep :: "nat \<Rightarrow> event list \<Rightarrow> event list" where
  "sleep ms evs = evs @ [Sleep ms]"

text \<open>The \<open>result\<close> object of \<open>verifySegment\<close>: its \<open>ok\<close>, \<open>reason\<close> and \<open>headers\<close>.\<close>

datatype result = Result bool jsval "headers option"

text \<open>
  \<open>verifySegment\<close> picks the request function, calls it on the URI and resolves with
  the result object. A predicate that throws does so inside the \<open>then\<close> callback, before
  \<open>result.headers\<close> is assigned; the \<open>catch\<close> callback then handles it like a rejected
  request.
\<close>

definition verifySegment ::
  "network \<Rightarrow> (headers \<Rightarrow> jsval + bool) \<Rightarrow> string \<Rightarrow> bool \<Rightarrow> event list \<Rightarrow>
   result \<times> event list" where
  "verifySegment net verifyFn segmentUrl doDownload evs =
     (let reqFn = (if \<not> doDownload then requestHeaders net else requestCacheFill net) in
      case reqFn segmentUrl evs of
        (Inr hs, evs') \<Rightarrow>
          (case verifyFn hs of
             Inr b \<Rightarrow> (Result b Undefined (Some hs), evs')
           | Inl err \<Rightarrow> (Result False err None, evs'))
      | (Inl err, evs') \<Rightarrow> (Result False err None, evs'))"

text \<open>
  An element of the segment array is a string, or \<open>undefined\<close> (\<open>None\<close>), which is what
  a draw from an empty array gives. \<open>base + segmentUrl\<close> turns \<open>undefined\<close> into the
  text \<open>undefined\<close>.
\<close>

definition concat_url :: "string \<Rightarrow> string option \<Rightarrow> string" where
  "concat_url b segmentUrl =
     b @ (case segmentUrl of None \<Rightarrow> ''undefined'' | Some s \<Rightarrow> s)"

text \<open>The entries of the report: \<open>{uri}\<close> and \<open>{uri, reason, headers}\<close>.\<close>

datatype successInfo = SuccessInfo "string option"

datatype failedInfo = FailedInfo "string option" jsval "headers option"

record segmentVerifyResult =
  failed :: "failedInfo list"
  ok :: "successInfo list"

definition record_result ::
  "string option \<Rightarrow> result \<Rightarrow> segmentVerifyResult \<Rightarrow> segmentVerifyResult" where
  "record_result segmentUrl res r =
     (case res of
        Result okay rsn hs \<Rightarrow>
          if okay then r\<lparr>ok := ok r @ [SuccessInfo segmentUrl]\<rparr>
          else r\<lparr>failed := failed r @ [FailedInfo segmentUrl rsn hs]\<rparr>)"

text \<open>
  Modelled from the spec: \<open>util.iteratorFromArray\<close> (lib/util.js is missing), which the
  spec describes as iteration over the input in order. The state of the iterator is the
  list of elements it has not handed out yet.
\<close>

definition iteratorFromArray :: "'a list \<Rightarrow> 'a list" where
  "iteratorFromArray arr = arr"

text \<open>
  Modelled from the spec: the iterator's \<open>next\<close> (lib/util.js is missing). It answers
  \<open>{done: true}\<close> when nothing is left, and otherwise \<open>{value, done: false}\<close> with the
  first element left, which it removes.
\<close>

datatype 'a iter = Done | Value 'a

fun it_next :: "'a list \<Rightarrow> 'a iter \<times> 'a list" where
  "it_next [] = (Done, [])"
| "it_next (a # as) = (Value a, as)"

text \<open>
  \<open>checkSegment\<close> is the recursion of the source: ask the iterator; when it is done,
  \<open>doneCb\<close> resolves with the two arrays; otherwise call \<open>verifySegment\<close>, append to
  \<open>ok\<close> or \<open>failed\<close>, call \<open>util.sleep(50)\<close> and start over. The state is the
  iterator, the two arrays and the world.
\<close>

function checkSegment ::
  "network \<Rightarrow> (headers \<Rightarrow> jsval + bool) option \<Rightarrow> string \<Rightarrow> bool \<Rightarrow>
   string option list \<Rightarrow> segmentVerifyResult \<times> event list \<Rightarrow>
   segmentVerifyResult \<times> event list" where
  "checkSegment net verifyFn b doDownload it (r, evs) =
     (case it_next it of
        (Done, it') \<Rightarrow> (r, evs)
      | (Value segmentUrl, it') \<Rightarrow>
          (case verifySegment net (case verifyFn of None \<Rightarrow> defaultVerifyFn | Some f \<Rightarrow> f)
                  (concat_url b segmentUrl) doDownload evs of
             (res, evs') \<Rightarrow>
               checkSegment net verifyFn b doDownload it'
                 (record_result segmentUrl res r, sleep 50 evs')))"
  by pat_completeness auto
termination
  apply (relation "measure (\<lambda>(net, verifyFn, b, doDownload, it, st). length it)")
  subgoal by simp
  subgoal for net verifyFn b doDownload it
    by (cases it) simp_all
  done

definition verifySegments ::
  "network \<Rightarrow> 'r dashValidator \<Rightarrow> (headers \<Rightarrow> jsval + bool) option \<Rightarrow>
   string option list \<Rightarrow> bool \<Rightarrow> segmentVerifyResult \<times> event list" where
  "verifySegments net v verifyFn segs doDownload =
     checkSegment net verifyFn (base v) doDownload (iteratorFromArray segs)
       (\<lparr>failed = [], ok = []\<rparr>, [])"

text \<open>Reading \<open>this._manifest.segments\<close> before \<open>load\<close> throws a TypeError.\<close>

definition verifyAllSegments ::
  "network \<Rightarrow> 'r dashValidator \<Rightarrow> (headers \<Rightarrow> jsval + bool) option \<Rightarrow> bool \<Rightarrow>
   jsval + segmentVerifyResult \<times> event list" where
  "verifyAllSegments net v verifyFn doDownload =
     (case manifest v of
        None \<Rightarrow> Inl TypeError
      | Some m \<Rightarrow> Inr (verifySegments net v verifyFn (map Some (segments m)) doDownload))"

section \<open>spotcheckSegments\<close>

text \<open>
  Modelled from the spec: \<open>util.getRandomItem\<close> (lib/util.js is missing). The spec says
  that a draw is uniform over the array and made with replacement. The random source is
  explicit: \<open>r\<close> is the raw number drawn, and the item is the one at index
  \<open>r mod |arr|\<close>; the array is not changed. An empty array has no item: \<open>undefined\<close>.
\<close>

definition getRandomItem :: "'a list \<Rightarrow> nat \<Rightarrow> 'a option" where
  "getRandomItem arr r = (if arr = [] then None else Some (arr ! (r mod length arr)))"

text \<open>
  The \<open>while\<close> loop of \<open>spotcheckSegments\<close>; \<open>rnd k\<close> is the raw number of draw \<open>k\<close>,
  and draw \<open>k\<close> happens in the pass with \<open>i = k\<close>.
\<close>

function spotcheck_loop ::
  "string list \<Rightarrow> (nat \<Rightarrow> nat) \<Rightarrow> int \<Rightarrow> int \<Rightarrow> string option list \<Rightarrow> string option list" where
  "spotcheck_loop segs rnd noSamples i spotchecks =
     (if i < noSamples
      then spotcheck_loop segs rnd noSamples (i + 1)
             (spotchecks @ [getRandomItem segs (rnd (nat i))])
      else spotchecks)"
  by pat_completeness auto
termination
  by (relation "measure (\<lambda>(segs, rnd, noSamples, i, spotchecks). nat (noSamples - i))") auto

definition spotcheckSegments ::
  "network \<Rightarrow> (nat \<Rightarrow> nat) \<Rightarrow> 'r dashValidator \<Rightarrow> (headers \<Rightarrow> jsval + bool) option \<Rightarrow>
   int \<Rightarrow> bool \<Rightarrow> jsval + segmentVerifyResult \<times> event list" where
  "spotcheckSegments net rnd v verifyFn noSamples doDownload =
     (case manifest v of
        None \<Rightarrow> Inl TypeError
      | Some m \<Rightarrow>
          Inr (verifySegments net v verifyFn
                 (spotcheck_loop (segments m) rnd noSamples 0 []) doDownload))"

section \<open>Event subscription\<close>

text \<open>
  \<open>runner_on\<close> is the runner's own \<open>on\<close> (lib/dash_validator_runner.js is missing): what
  registering does to the runner's state. It is called only for a name in the list;
  before \<open>load\<close> there is no runner, and the call throws a TypeError.
\<close>

definition on ::
  "(string \<Rightarrow> 'cb \<Rightarrow> 'r \<Rightarrow> 'r) \<Rightarrow> string \<Rightarrow> 'cb \<Rightarrow> 'r dashValidator \<Rightarrow>
   jsval + 'r dashValidator" where
  "on runner_on eventName fn v =
     (if eventName \<in> set [''invalidplayhead'', ''invalidheaders'', ''checking'']
      then (case runner v of
              None \<Rightarrow> Inl TypeError
            | Some r \<Rightarrow> Inr (v\<lparr>runner := Some (runner_on eventName fn r)\<rparr>))
      else Inr v)"

section \<open>Example inputs\<close>

text \<open>
  Concrete inputs for the instances below: the header set of the specification's example,
  the same set without \<open>access-control-expose-headers\<close>, the predicate of the README
  (\<open>typeof headers["x-my-custom-header"] !== "undefined"\<close>), a network that times
  out on the second segment, a manifest with three segments, and a runner state that is
  the list of registrations made so far.
\<close>

definition example_headers :: headers where
  "example_headers =
     [''cache-control'' \<mapsto> ''max-age=5'',
      ''access-control-expose-headers'' \<mapsto> ''Date'',
      ''access-control-allow-headers'' \<mapsto> ''origin'']"

definition headers_without_expose :: headers where
  "headers_without_expose =
     [''cache-control'' \<mapsto> ''max-age=5'',
      ''access-control-allow-headers'' \<mapsto> ''origin'']"

definition customVerifyFn :: "headers \<Rightarrow> jsval + bool" where
  "customVerifyFn hs = Inr (hs ''x-my-custom-header'' \<noteq> None)"

definition example_answer :: "string \<Rightarrow> jsval + headers" where
  "example_answer url =
     (if url = ''http://example.com/seg-2.m4s'' then Inl (Error ''ETIMEDOUT'')
      else Inr example_headers)"

definition example_network :: network where
  "example_network k rq =
     (case rq of
        RequestHeaders url \<Rightarrow> example_answer url
      | RequestCacheFill url \<Rightarrow> example_answer url)"

definition example_manifest :: "string \<Rightarrow> int \<Rightarrow> manifest" where
  "example_manifest ty head =
     \<lparr>mtype = ty, totalDuration = 12, timeAtHead = head,
      segments = [''seg-1.m4s'', ''seg-2.m4s'', ''seg-3.m4s'']\<rparr>"

definition register :: "string \<Rightarrow> nat \<Rightarrow> (string \<times> nat) list \<Rightarrow> (string \<times> nat) list" where
  "register eventName fn r = r @ [(eventName, fn)]"

definition loaded :: "manifest \<Rightarrow> (string \<times> nat) list dashValidator" where
  "loaded m =
     \<lparr>src = ''http://example.com/test.mpd'', manifest = Some m,
      base = ''http://example.com/'', manifestHeaders = Some example_headers,
      runner = Some []\<rparr>"


definition always_second :: "nat \<Rightarrow> nat" where
  "always_second k = 1"

section \<open>The pipeline recursion\<close>

text \<open>
  What one call of \<open>verifySegment\<close> does: it sends exactly one request, the one for its
  URI, and its result is decided by the network's answer and the predicate.
\<close>

lemma verifySegment_world:
  "snd (verifySegment net P url d evs) =
     evs @ [Request (if \<not> d then RequestHeaders url else RequestCacheFill url)]"
  by (simp add: verifySegment_def requestHeaders_def requestCacheFill_def Let_def
      split: sum.splits)

lemma verifySegment_result:
  "fst (verifySegment net P url d evs) =
     (case net (length (filter is_request evs))
             (if \<not> d then RequestHeaders url else RequestCacheFill url) of
        Inl err \<Rightarrow> Result False err None
      | Inr hs \<Rightarrow>
          (case P hs of
             Inl err \<Rightarrow> Result False err None
           | Inr b \<Rightarrow> Result b Undefined (Some hs)))"
  by (simp add: verifySegment_def requestHeaders_def requestCacheFill_def Let_def
      split: sum.splits)

text \<open>
  Facts about \<open>checkSegment\<close> from any intermediate state, by induction on the
  elements the iterator still holds.
\<close>

lemma checkSegment_done [simp]: "checkSegment net verifyFn b doDownload [] st = st"
  by (cases st) simp

lemma checkSegment_next:
  "checkSegment net verifyFn b doDownload (segmentUrl # it) (r, evs) =
     checkSegment net verifyFn b doDownload it
       (record_result segmentUrl
          (fst (verifySegment net (case verifyFn of None \<Rightarrow> defaultVerifyFn | Some f \<Rightarrow> f)
                  (concat_url b segmentUrl) doDownload evs)) r,
        sleep 50
          (snd (verifySegment net (case verifyFn of None \<Rightarrow> defaultVerifyFn | Some f \<Rightarrow> f)
                  (concat_url b segmentUrl) doDownload evs)))"
  by (simp add: split_beta)

declare checkSegment.simps [simp del]
declare checkSegment_next [simp]

lemma record_result_length:
  "length (ok (record_result s res r)) + length (failed (record_result s res r)) =
   Suc (length (ok r) + length (failed r))"
  by (cases res) (simp add: record_result_def)

lemma checkSegment_length:
  "length (ok (fst (checkSegment net vf b d it (r, evs)))) +
   length (failed (fst (checkSegment net vf b d it (r, evs)))) =
   length (ok r) + length (failed r) + length it"
proof (induction it arbitrary: r evs)
  case Nil
  show ?case by simp
next
  case (Cons s it)
  show ?case
    by (simp add: Cons.IH record_result_length)
qed


lemma checkSegment_requests:
  "filter is_request (snd (checkSegment net vf b d it (r, evs))) =
   filter is_request evs @
   map (\<lambda>s. Request (if \<not> d then RequestHeaders (concat_url b s)
                      else RequestCacheFill (concat_url b s))) it"
  by (induction it arbitrary: r evs) (simp_all add: verifySegment_world sleep_def)

lemma record_result_failed_mono:
  "x \<in> set (failed r) \<Longrightarrow> x \<in> set (failed (record_result s res r))"
  by (cases res) (simp add: record_result_def)

lemma checkSegment_failed_mono:
  "x \<in> set (failed r) \<Longrightarrow> x \<in> set (failed (fst (checkSegment net vf b d it (r, evs))))"
proof (induction it arbitrary: r evs)
  case Nil
  then show ?case by simp
next
  case (Cons s it)
  from Cons.prems have "x \<in> set (failed (record_result s res r))" for res
    by (rule record_result_failed_mono)
  then show ?case
    by (simp add: Cons.IH)
qed

text \<open>
  The segment at position \<open>i\<close> of what is left is probed as request number \<open>i\<close> after
  those already sent; when that probe fails, its entry is in the report.
\<close>

lemma checkSegment_records_failure:
  assumes "i < length it"
    and "\<And>w. length (filter is_request w) = length (filter is_request evs) + i \<Longrightarrow>
           fst (verifySegment net (case vf of None \<Rightarrow> defaultVerifyFn | Some f \<Rightarrow> f)
                  (concat_url b (it ! i)) d w) = Result False rsn hs"
  shows "FailedInfo (it ! i) rsn hs \<in> set (failed (fst (checkSegment net vf b d it (r, evs))))"
  using assms
proof (induction it arbitrary: i r evs)
  case Nil
  then show ?case by simp
next
  case (Cons s it)
  show ?case
  proof (cases i)
    case 0
    with Cons.prems(2) [of evs]
    have "fst (verifySegment net (case vf of None \<Rightarrow> defaultVerifyFn | Some f \<Rightarrow> f)
                 (concat_url b s) d evs) = Result False rsn hs"
      by simp
    then have "FailedInfo s rsn hs \<in> set (failed (record_result s
        (fst (verifySegment net (case vf of None \<Rightarrow> defaultVerifyFn | Some f \<Rightarrow> f)
                (concat_url b s) d evs)) r))"
      by (simp add: record_result_def)
    then show ?thesis
      using 0 by (simp add: checkSegment_failed_mono)
  next
    case (Suc j)
    with Cons.prems(1) have j: "j < length it" by simp
    have p: "fst (verifySegment net (case vf of None \<Rightarrow> defaultVerifyFn | Some f \<Rightarrow> f)
                    (concat_url b (it ! j)) d w) = Result False rsn hs"
      if "length (filter is_request w) =
          length (filter is_request
            (sleep 50 (snd (verifySegment net (case vf of None \<Rightarrow> defaultVerifyFn | Some f \<Rightarrow> f)
                              (concat_url b s) d evs)))) + j" for w
      using Cons.prems(2) [of w] that Suc
      by (simp add: verifySegment_world sleep_def)
    from Cons.IH [OF j p] show ?thesis
      using Suc by simp
  qed
qed

text \<open>
  Conversely, every entry of \<open>failed\<close> was there before or is the entry of a probe of
  this run that failed.
\<close>

lemma record_result_failed_origin:
  "x \<in> set (failed (record_result s res r)) \<Longrightarrow>
   x \<in> set (failed r) \<or> (\<exists>rsn hs. res = Result False rsn hs \<and> x = FailedInfo s rsn hs)"
  by (cases res) (auto simp add: record_result_def split: if_splits)

lemma checkSegment_failed_origin:
  assumes "FailedInfo u rsn h \<in> set (failed (fst (checkSegment net vf b d it (r, evs))))"
  shows "FailedInfo u rsn h \<in> set (failed r) \<or>
         (\<exists>j w. j < length it \<and> u = it ! j \<and>
            length (filter is_request w) = length (filter is_request evs) + j \<and>
            fst (verifySegment net (case vf of None \<Rightarrow> defaultVerifyFn | Some f \<Rightarrow> f)
                   (concat_url b (it ! j)) d w) = Result False rsn h)"
  using assms
proof (induction it arbitrary: r evs)
  case Nil
  then show ?case by simp
next
  case (Cons s it)
  let ?P = "case vf of None \<Rightarrow> defaultVerifyFn | Some f \<Rightarrow> f"
  let ?res = "fst (verifySegment net ?P (concat_url b s) d evs)"
  let ?evs = "sleep 50 (snd (verifySegment net ?P (concat_url b s) d evs))"
  from Cons.prems
  have "FailedInfo u rsn h \<in> set (failed (fst (checkSegment net vf b d it
          (record_result s ?res r, ?evs))))"
    by simp
  from Cons.IH [OF this]
  consider (before) "FailedInfo u rsn h \<in> set (failed (record_result s ?res r))"
    | (later) j w where "j < length it" "u = it ! j"
        "length (filter is_request w) = length (filter is_request ?evs) + j"
        "fst (verifySegment net ?P (concat_url b (it ! j)) d w) = Result False rsn h"
    by blast
  then show ?case
  proof cases
    case before
    from record_result_failed_origin [OF this]
    show ?thesis
    proof
      assume "FailedInfo u rsn h \<in> set (failed r)"
      then show ?thesis by simp
    next
      assume "\<exists>rsn' hs. ?res = Result False rsn' hs \<and> FailedInfo u rsn h = FailedInfo s rsn' hs"
      then have "?res = Result False rsn h" and "u = s" by auto
      then have "0 < length (s # it) \<and> u = (s # it) ! 0 \<and>
          length (filter is_request evs) = length (filter is_request evs) + 0 \<and>
          fst (verifySegment net ?P (concat_url b ((s # it) ! 0)) d evs) = Result False rsn h"
        by simp
      then show ?thesis by blast
    qed
  next
    case later
    then have "Suc j < length (s # it) \<and> u = (s # it) ! Suc j \<and>
        length (filter is_request w) = length (filter is_request evs) + Suc j \<and>
        fst (verifySegment net ?P (concat_url b ((s # it) ! Suc j)) d w) = Result False rsn h"
      by (simp add: verifySegment_world sleep_def)
    then show ?thesis by blast
  qed
qed

section \<open>The report partitions the input\<close>


section \<open>Transport errors\<close>

text \<open>
  C2: when the request for segment \<open>i\<close> is rejected with \<open>err\<close>, the report has the
  failed entry of that segment with \<open>err\<close> as its reason (and no headers); the run goes on:
  every segment of the list is requested once, and the report accounts for all of them.
\<close>

theorem transport_error_is_recorded:
  assumes "i < length S"
    and "net i (if \<not> doDownload then RequestHeaders (concat_url (base v) (S ! i))
                else RequestCacheFill (concat_url (base v) (S ! i))) = Inl err"
  shows "FailedInfo (S ! i) err None \<in> set (failed (fst (verifySegments net v verifyFn S doDownload))) \<and>
         filter is_request (snd (verifySegments net v verifyFn S doDownload)) =
           map (\<lambda>s. Request (if \<not> doDownload then RequestHeaders (concat_url (base v) s)
                              else RequestCacheFill (concat_url (base v) s))) S \<and>
         length (ok (fst (verifySegments net v verifyFn S doDownload))) +
         length (failed (fst (verifySegments net v verifyFn S doDownload))) = length S"
proof -
  have "fst (verifySegment net (case verifyFn of None \<Rightarrow> defaultVerifyFn | Some f \<Rightarrow> f)
               (concat_url (base v) (S ! i)) doDownload w) = Result False err None"
    if "length (filter is_request w) = length (filter is_request []) + i" for w
    using that assms(2) by (simp add: verifySegment_result)
  from checkSegment_records_failure [OF assms(1) this]
  show ?thesis
    by (simp add: verifySegments_def iteratorFromArray_def checkSegment_length checkSegment_requests)
qed

theorem transport_error_is_recorded_witness:
  "(1::nat) < length [Some ''seg-1.m4s'', Some ''seg-2.m4s'', Some ''seg-3.m4s''] \<and>
   example_network 1 (RequestHeaders ''http://example.com/seg-2.m4s'') = Inl (Error ''ETIMEDOUT'') \<and>
   FailedInfo (Some ''seg-2.m4s'') (Error ''ETIMEDOUT'') None
     \<in> set (failed (fst (verifySegments example_network (loaded (example_manifest ''static'' 0))
          (Some customVerifyFn) [Some ''seg-1.m4s'', Some ''seg-2.m4s'', Some ''seg-3.m4s''] False))) \<and>
   filter is_request (snd (verifySegments example_network (loaded (example_manifest ''static'' 0))
          (Some customVerifyFn) [Some ''seg-1.m4s'', Some ''seg-2.m4s'', Some ''seg-3.m4s''] False)) =
     [Request (RequestHeaders ''http://example.com/seg-1.m4s''),
      Request (RequestHeaders ''http://example.com/seg-2.m4s''),
      Request (RequestHeaders ''http://example.com/seg-3.m4s'')]"
proof -
  have h: "example_network 1
      (if \<not> False
       then RequestHeaders (concat_url (base (loaded (example_manifest ''static'' 0)))
              ([Some ''seg-1.m4s'', Some ''seg-2.m4s'', Some ''seg-3.m4s''] ! 1))
       else RequestCacheFill (concat_url (base (loaded (example_manifest ''static'' 0)))
              ([Some ''seg-1.m4s'', Some ''seg-2.m4s'', Some ''seg-3.m4s''] ! 1))) =
      Inl (Error ''ETIMEDOUT'')"
    by (simp add: example_network_def example_answer_def concat_url_def loaded_def)
  have l: "(1::nat) < length [Some ''seg-1.m4s'', Some ''seg-2.m4s'', Some ''seg-3.m4s'']"
    by simp
  from transport_error_is_recorded
         [where net = example_network and i = 1 and doDownload = False
            and v = "loaded (example_manifest ''static'' 0)"
            and S = "[Some ''seg-1.m4s'', Some ''seg-2.m4s'', Some ''seg-3.m4s'']"
            and err = "Error ''ETIMEDOUT''" and verifyFn = "Some customVerifyFn", OF l h]
  show ?thesis
    by (simp add: example_network_def example_answer_def concat_url_def loaded_def)
qed

section \<open>Policy failures\<close>

text \<open>
  C3, as stated, fails: \<open>verifySegment\<close> never assigns \<open>result.reason\<close> when the
  predicate returns false, so the entry's reason is \<open>undefined\<close>, not the string
  \<open>policy\<close>. Here the README's predicate rejects the headers of the first segment.
\<close>

theorem policy_failure_reason_counterexample:
  "failed (fst (verifySegments example_network (loaded (example_manifest ''static'' 0))
      (Some customVerifyFn) [Some ''seg-1.m4s''] False)) =
     [FailedInfo (Some ''seg-1.m4s'') Undefined (Some example_headers)] \<and>
   Undefined \<noteq> Str ''policy''"
  by (simp add: verifySegments_def iteratorFromArray_def verifySegment_result record_result_def
      customVerifyFn_def example_network_def example_answer_def concat_url_def loaded_def
      example_headers_def)

text \<open>
  C3, amended: when the request for segment \<open>i\<close> resolves with headers \<open>hs\<close> and the
  predicate returns false on them, the report has the failed entry of that segment with
  reason \<open>undefined\<close> and headers \<open>hs\<close>. In the same report the entry of every segment
  whose request is rejected has the error as its reason and no headers, and every failed
  entry that has headers has reason \<open>undefined\<close> and is the entry of a segment whose
  request resolved with these headers and whose predicate returned false on them. So in
  the report a policy violation is told from a transport error by its headers.
\<close>

theorem policy_failure_is_recorded:
  assumes "i < length S"
    and "net i (if \<not> doDownload then RequestHeaders (concat_url (base v) (S ! i))
                else RequestCacheFill (concat_url (base v) (S ! i))) = Inr hs"
    and "(case verifyFn of None \<Rightarrow> defaultVerifyFn | Some f \<Rightarrow> f) hs = Inr False"
  shows "FailedInfo (S ! i) Undefined (Some hs)
           \<in> set (failed (fst (verifySegments net v verifyFn S doDownload))) \<and>
         (\<forall>j e. j < length S \<longrightarrow>
            net j (if \<not> doDownload then RequestHeaders (concat_url (base v) (S ! j))
                   else RequestCacheFill (concat_url (base v) (S ! j))) = Inl e \<longrightarrow>
            FailedInfo (S ! j) e None
              \<in> set (failed (fst (verifySegments net v verifyFn S doDownload)))) \<and>
         (\<forall>u rsn h.
            FailedInfo u rsn (Some h)
              \<in> set (failed (fst (verifySegments net v verifyFn S doDownload))) \<longrightarrow>
            rsn = Undefined \<and>
            (\<exists>j. j < length S \<and> u = S ! j \<and>
               net j (if \<not> doDownload then RequestHeaders (concat_url (base v) (S ! j))
                      else RequestCacheFill (concat_url (base v) (S ! j))) = Inr h \<and>
               (case verifyFn of None \<Rightarrow> defaultVerifyFn | Some f \<Rightarrow> f) h = Inr False))"
proof (intro conjI allI impI)
  have "fst (verifySegment net (case verifyFn of None \<Rightarrow> defaultVerifyFn | Some f \<Rightarrow> f)
               (concat_url (base v) (S ! i)) doDownload w) = Result False Undefined (Some hs)"
    if "length (filter is_request w) = length (filter is_request []) + i" for w
    using that assms(2,3) by (simp add: verifySegment_result)
  from checkSegment_records_failure [OF assms(1) this]
  show "FailedInfo (S ! i) Undefined (Some hs)
          \<in> set (failed (fst (verifySegments net v verifyFn S doDownload)))"
    by (simp add: verifySegments_def iteratorFromArray_def)
next
  fix j e
  assume j: "j < length S"
    and e: "net j (if \<not> doDownload then RequestHeaders (concat_url (base v) (S ! j))
                   else RequestCacheFill (concat_url (base v) (S ! j))) = Inl e"
  have "fst (verifySegment net (case verifyFn of None \<Rightarrow> defaultVerifyFn | Some f \<Rightarrow> f)
               (concat_url (base v) (S ! j)) doDownload w) = Result False e None"
    if "length (filter is_request w) = length (filter is_request []) + j" for w
    using that e by (simp add: verifySegment_result)
  from checkSegment_records_failure [OF j this]
  show "FailedInfo (S ! j) e None \<in> set (failed (fst (verifySegments net v verifyFn S doDownload)))"
    by (simp add: verifySegments_def iteratorFromArray_def)
next
  fix u rsn h
  assume "FailedInfo u rsn (Some h) \<in> set (failed (fst (verifySegments net v verifyFn S doDownload)))"
  then have "FailedInfo u rsn (Some h) \<in> set (failed (fst (checkSegment net verifyFn (base v)
      doDownload S (\<lparr>failed = [], ok = []\<rparr>, []))))"
    by (simp add: verifySegments_def iteratorFromArray_def)
  from checkSegment_failed_origin [OF this]
  obtain j w where j: "j < length S" and u: "u = S ! j"
    and w: "length (filter is_request w) = j"
    and r: "fst (verifySegment net (case verifyFn of None \<Rightarrow> defaultVerifyFn | Some f \<Rightarrow> f)
                   (concat_url (base v) (S ! j)) doDownload w) = Result False rsn (Some h)"
    by auto
  from r w have o: "rsn = Undefined \<and>
      net j (if \<not> doDownload then RequestHeaders (concat_url (base v) (S ! j))
             else RequestCacheFill (concat_url (base v) (S ! j))) = Inr h \<and>
      (case verifyFn of None \<Rightarrow> defaultVerifyFn | Some f \<Rightarrow> f) h = Inr False"
    by (auto simp add: verifySegment_result split: sum.splits)
  then show "rsn = Undefined" by simp
  from o j u show "\<exists>j. j < length S \<and> u = S ! j \<and>
      net j (if \<not> doDownload then RequestHeaders (concat_url (base v) (S ! j))
             else RequestCacheFill (concat_url (base v) (S ! j))) = Inr h \<and>
      (case verifyFn of None \<Rightarrow> defaultVerifyFn | Some f \<Rightarrow> f) h = Inr False"
    by blast
qed

theorem policy_failure_is_recorded_witness:
  "(0::nat) < length [Some ''seg-1.m4s'', Some ''seg-2.m4s''] \<and>
   example_network 0 (RequestCacheFill ''http://example.com/seg-1.m4s'') = Inr example_headers \<and>
   customVerifyFn example_headers = Inr False \<and>
   FailedInfo (Some ''seg-1.m4s'') Undefined (Some example_headers)
     \<in> set (failed (fst (verifySegments example_network (loaded (example_manifest ''static'' 0))
          (Some customVerifyFn) [Some ''seg-1.m4s'', Some ''seg-2.m4s''] True))) \<and>
   example_network 1 (RequestCacheFill ''http://example.com/seg-2.m4s'') = Inl (Error ''ETIMEDOUT'') \<and>
   FailedInfo (Some ''seg-2.m4s'') (Error ''ETIMEDOUT'') None
     \<in> set (failed (fst (verifySegments example_network (loaded (example_manifest ''static'' 0))
          (Some customVerifyFn) [Some ''seg-1.m4s'', Some ''seg-2.m4s''] True))) \<and>
   FailedInfo (Some ''seg-2.m4s'') (Error ''ETIMEDOUT'') (Some example_headers)
     \<notin> set (failed (fst (verifySegments example_network (loaded (example_manifest ''static'' 0))
          (Some customVerifyFn) [Some ''seg-1.m4s'', Some ''seg-2.m4s''] True)))"
proof -
  let ?S = "[Some ''seg-1.m4s'', Some ''seg-2.m4s'']"
  let ?v = "loaded (example_manifest ''static'' 0)"
  have l: "(0::nat) < length ?S"
    by simp
  have h: "example_network 0
      (if \<not> True then RequestHeaders (concat_url (base ?v) (?S ! 0))
       else RequestCacheFill (concat_url (base ?v) (?S ! 0))) = Inr example_headers"
    by (simp add: example_network_def example_answer_def concat_url_def loaded_def)
  have p: "(case Some customVerifyFn of None \<Rightarrow> defaultVerifyFn | Some f \<Rightarrow> f) example_headers = Inr False"
    by (simp add: customVerifyFn_def example_headers_def)
  have e: "example_network 1
      (if \<not> True then RequestHeaders (concat_url (base ?v) (?S ! 1))
       else RequestCacheFill (concat_url (base ?v) (?S ! 1))) = Inl (Error ''ETIMEDOUT'')"
    by (simp add: example_network_def example_answer_def concat_url_def loaded_def)
  note T = policy_failure_is_recorded
    [where net = example_network and i = 0 and doDownload = True and v = ?v and S = ?S
       and hs = example_headers and verifyFn = "Some customVerifyFn", OF l h p]
  from T have a: "FailedInfo (Some ''seg-1.m4s'') Undefined (Some example_headers)
      \<in> set (failed (fst (verifySegments example_network ?v (Some customVerifyFn) ?S True)))"
    by simp
  from T e have b: "FailedInfo (Some ''seg-2.m4s'') (Error ''ETIMEDOUT'') None
      \<in> set (failed (fst (verifySegments example_network ?v (Some customVerifyFn) ?S True)))"
    by (metis One_nat_def length_Cons lessI list.size(3) nth_Cons_0 nth_Cons_Suc)
  from T have c: "FailedInfo (Some ''seg-2.m4s'') (Error ''ETIMEDOUT'') (Some example_headers)
      \<notin> set (failed (fst (verifySegments example_network ?v (Some customVerifyFn) ?S True)))"
    by blast
  from a b c h p e show ?thesis
    by (simp add: concat_url_def loaded_def)
qed

section \<open>The default segment predicate\<close>

text \<open>
  C4: the default predicate is claimed never to throw. With \<open>cache-control\<close> present and
  \<open>access-control-expose-headers\<close> absent the source calls \<open>split\<close> on \<open>undefined\<close>:
  the call throws a TypeError instead of returning false.
\<close>

theorem defaultVerifyFn_throws_on_missing_header:
  "defaultVerifyFn headers_without_expose = Inl TypeError"
  by (simp add: defaultVerifyFn_def headers_without_expose_def)

text \<open>
  Where the predicate does return: on the specification's example it accepts; with all
  three headers present it is the conjunction of the two token tests; without
  \<open>cache-control\<close> it returns false and looks no further.
\<close>

lemma defaultVerifyFn_accepts_example: "defaultVerifyFn example_headers = Inr True"
  by (simp add: defaultVerifyFn_def example_headers_def)

lemma defaultVerifyFn_headers_present:
  assumes "hs ''cache-control'' = Some c"
    and "hs ''access-control-expose-headers'' = Some e"
    and "hs ''access-control-allow-headers'' = Some a"
  shows "defaultVerifyFn hs =
           Inr (''Date'' \<in> set (split_on CHR '','' e) \<and> ''origin'' \<in> set (split_on CHR '','' a))"
  using assms by (simp add: defaultVerifyFn_def)

lemma defaultVerifyFn_no_cache_control:
  "hs ''cache-control'' = None \<Longrightarrow> defaultVerifyFn hs = Inr False"
  by (simp add: defaultVerifyFn_def)

text \<open>
  It throws exactly when \<open>cache-control\<close> is present and the first of the other two
  headers that it reads is absent.
\<close>

lemma defaultVerifyFn_throws_iff:
  "defaultVerifyFn hs = Inl err \<longleftrightarrow>
     err = TypeError \<and> hs ''cache-control'' \<noteq> None \<and>
     (hs ''access-control-expose-headers'' = None \<or>
      (\<exists>e. hs ''access-control-expose-headers'' = Some e \<and>
           ''Date'' \<in> set (split_on CHR '','' e) \<and>
           hs ''access-control-allow-headers'' = None))"
  by (auto simp add: defaultVerifyFn_def split: option.splits)

section \<open>Timestamps\<close>

text \<open>
  C5: the clock is claimed to be \<open>BAD\<close> exactly when the offset exceeds \<open>allowedDiff\<close>.
  Called with \<open>allowedDiff = 0\<close> on a dynamic manifest whose head is 5000 ms away from
  now, the code reports \<open>OK\<close> although 5000 exceeds 0: \<open>0 || 10000\<close> is 10000, so the
  zero that was passed is lost. The documentation of the function says \<open>"BAD" if diff >
  allowedDiff\<close>, with 10000 as the default.
\<close>

theorem verifyTimestamps_zero_tolerance_lost:
  "verifyTimestamps (loaded (example_manifest ''dynamic'' 5000)) 0 (Some 0) =
     Inr \<lparr>clock = ''OK'', clockOffset = Some 5000\<rparr> \<and>
   \<bar>5000 - 0\<bar> > (0::int)"
  by (simp add: verifyTimestamps_def diffCriteria_def loaded_def example_manifest_def)

text \<open>
  For every other argument the documented rule holds: on a static manifest the result is
  \<open>{clock: "OK"}\<close> whatever \<open>timeAtHead\<close> is; on a dynamic manifest, for \<open>allowedDiff\<close>
  omitted or not zero, the clock is \<open>BAD\<close> exactly when the offset
  \<open>|timeAtHead - now|\<close> exceeds \<open>allowedDiff\<close> (10000 when omitted), and
  \<open>clockOffset\<close> is the offset in both cases.
\<close>

lemma verifyTimestamps_threshold:
  assumes "manifest v = Some m"
  shows "(mtype m = ''static'' \<longrightarrow>
            verifyTimestamps v now allowedDiff = Inr \<lparr>clock = ''OK'', clockOffset = None\<rparr>) \<and>
         (mtype m = ''dynamic'' \<longrightarrow> allowedDiff \<noteq> Some 0 \<longrightarrow>
            verifyTimestamps v now allowedDiff =
              Inr \<lparr>clock = (if \<bar>timeAtHead m - now\<bar> >
                                 (case allowedDiff of None \<Rightarrow> 10000 | Some a \<Rightarrow> a)
                             then ''BAD'' else ''OK''),
                   clockOffset = Some \<bar>timeAtHead m - now\<bar>\<rparr>)"
  using assms by (auto simp add: verifyTimestamps_def diffCriteria_def split: option.splits)

lemma verifyTimestamps_threshold_example:
  "manifest (loaded (example_manifest ''static'' 0)) = Some (example_manifest ''static'' 0) \<and>
   mtype (example_manifest ''static'' 0) = ''static'' \<and>
   verifyTimestamps (loaded (example_manifest ''static'' 0)) 20000 (Some 5000) =
     Inr \<lparr>clock = ''OK'', clockOffset = None\<rparr> \<and>
   manifest (loaded (example_manifest ''dynamic'' 0)) = Some (example_manifest ''dynamic'' 0) \<and>
   mtype (example_manifest ''dynamic'' 0) = ''dynamic'' \<and>
   verifyTimestamps (loaded (example_manifest ''dynamic'' 0)) 20000 (Some 5000) =
     Inr \<lparr>clock = ''BAD'', clockOffset = Some 20000\<rparr> \<and>
   verifyTimestamps (loaded (example_manifest ''dynamic'' 0)) 5000 None =
     Inr \<lparr>clock = ''OK'', clockOffset = Some 5000\<rparr>"
proof -
  have s: "manifest (loaded (example_manifest ''static'' 0)) = Some (example_manifest ''static'' 0)"
    by (simp add: loaded_def)
  have d: "manifest (loaded (example_manifest ''dynamic'' 0)) = Some (example_manifest ''dynamic'' 0)"
    by (simp add: loaded_def)
  from verifyTimestamps_threshold [OF s, of 20000 "Some 5000"]
       verifyTimestamps_threshold [OF d, of 20000 "Some 5000"]
       verifyTimestamps_threshold [OF d, of 5000 None]
       s d
  show ?thesis by (simp add: example_manifest_def)
qed

text \<open>
  C10: on a dynamic manifest, \<open>verifyTimestamps(0)\<close> gives what \<open>verifyTimestamps()\<close>
  gives: the threshold is the default 10000 ms, not zero.
\<close>

theorem verifyTimestamps_zero_is_default:
  assumes "manifest v = Some m" and "mtype m = ''dynamic''"
  shows "verifyTimestamps v now (Some 0) = verifyTimestamps v now None \<and>
         verifyTimestamps v now (Some 0) =
           Inr \<lparr>clock = (if \<bar>timeAtHead m - now\<bar> > 10000 then ''BAD'' else ''OK''),
                clockOffset = Some \<bar>timeAtHead m - now\<bar>\<rparr>"
  using assms by (simp add: verifyTimestamps_def diffCriteria_def)

theorem verifyTimestamps_zero_is_default_witness:
  "manifest (loaded (example_manifest ''dynamic'' 5000)) = Some (example_manifest ''dynamic'' 5000) \<and>
   mtype (example_manifest ''dynamic'' 5000) = ''dynamic'' \<and>
   verifyTimestamps (loaded (example_manifest ''dynamic'' 5000)) 0 (Some 0) =
     verifyTimestamps (loaded (example_manifest ''dynamic'' 5000)) 0 None \<and>
   verifyTimestamps (loaded (example_manifest ''dynamic'' 5000)) 0 (Some 0) =
     Inr \<lparr>clock = ''OK'', clockOffset = Some 5000\<rparr>"
proof -
  have m: "manifest (loaded (example_manifest ''dynamic'' 5000)) =
             Some (example_manifest ''dynamic'' 5000)"
    by (simp add: loaded_def)
  have d: "mtype (example_manifest ''dynamic'' 5000) = ''dynamic''"
    by (simp add: example_manifest_def)
  have h: "timeAtHead (example_manifest ''dynamic'' 5000) = 5000"
    by (simp add: example_manifest_def)
  from verifyTimestamps_zero_is_default [OF m d, of 0] show ?thesis
    using m d h by auto
qed

section \<open>Event subscription: unknown names\<close>

text \<open>
  C9: for an event name outside \<open>invalidplayhead\<close>, \<open>invalidheaders\<close>, \<open>checking\<close>,
  \<open>on\<close> returns without an error and leaves the validator, its runner included, as it
  was; for a name in the list it hands the name and the callback to the runner's \<open>on\<close>.
\<close>

theorem on_ignores_unknown_event_names:
  "(eventName \<notin> set [''invalidplayhead'', ''invalidheaders'', ''checking''] \<longrightarrow>
      on runner_on eventName fn v = Inr v) \<and>
   (eventName \<in> set [''invalidplayhead'', ''invalidheaders'', ''checking''] \<longrightarrow>
      runner v = Some r \<longrightarrow>
      on runner_on eventName fn v = Inr (v\<lparr>runner := Some (runner_on eventName fn r)\<rparr>))"
  by (simp add: on_def)

theorem on_ignores_unknown_event_names_witness:
  "''progress'' \<notin> set [''invalidplayhead'', ''invalidheaders'', ''checking''] \<and>
   on register ''progress'' 7 (loaded (example_manifest ''dynamic'' 0)) =
     Inr (loaded (example_manifest ''dynamic'' 0)) \<and>
   ''checking'' \<in> set [''invalidplayhead'', ''invalidheaders'', ''checking''] \<and>
   runner (loaded (example_manifest ''dynamic'' 0)) = Some [] \<and>
   on register ''checking'' 7 (loaded (example_manifest ''dynamic'' 0)) =
     Inr ((loaded (example_manifest ''dynamic'' 0))\<lparr>runner := Some [(''checking'', 7)]\<rparr>)"
proof -
  have r: "runner (loaded (example_manifest ''dynamic'' 0)) = Some []"
    by (simp add: loaded_def)
  from on_ignores_unknown_event_names
         [of "''progress''" register 7 "loaded (example_manifest ''dynamic'' 0)" "[]"]
       on_ignores_unknown_event_names
         [of "''checking''" register 7 "loaded (example_manifest ''dynamic'' 0)" "[]"]
       r
  show ?thesis by (simp add: register_def)
qed

text \<open>Before \<open>load\<close> there is no runner to forward to, and a known name throws.\<close>

lemma on_before_load:
  "eventName \<in> set [''invalidplayhead'', ''invalidheaders'', ''checking''] \<Longrightarrow>
   on runner_on eventName fn (constructor s) = Inl TypeError"
  by (simp add: on_def constructor_def)

section \<open>The default manifest predicate\<close>













section \<open>Spot checks\<close>

text \<open>
  The loop makes one draw per pass, \<open>noSamples\<close> passes (none for a count of zero or
  less), each from the whole, unchanged segment list. Run on the raw numbers \<open>rs\<close>, it
  gives the items drawn by them, one by one.
\<close>

lemma spotcheck_loop_eq:
  "0 \<le> i \<Longrightarrow>
   spotcheck_loop segs rnd noSamples i spotchecks =
     spotchecks @ map (\<lambda>k. getRandomItem segs (rnd k)) [nat i ..< nat noSamples]"
proof (induction segs rnd noSamples i spotchecks rule: spotcheck_loop.induct)
  case (1 segs rnd noSamples i spotchecks)
  show ?case
  proof (cases "i < noSamples")
    case True
    with "1.prems" have u: "[nat i ..< nat noSamples] = nat i # [nat (i + 1) ..< nat noSamples]"
      by (simp add: upt_conv_Cons nat_add_distrib)
    from "1.prems" have "0 \<le> i + 1" by simp
    from "1.IH" [OF True this] True u show ?thesis
      by (simp del: spotcheck_loop.simps add: spotcheck_loop.simps [of segs rnd noSamples i])
  next
    case False
    then show ?thesis by simp
  qed
qed

lemma spotcheck_loop_raw:
  assumes "length rs = nat noSamples"
  shows "spotcheck_loop segs (\<lambda>k. rs ! k) noSamples 0 [] = map (getRandomItem segs) rs"
proof -
  have "map (\<lambda>k. getRandomItem segs (rs ! k)) [0 ..< length rs] = map (getRandomItem segs) rs"
    by (rule nth_equalityI) simp_all
  with assms show ?thesis
    by (simp add: spotcheck_loop_eq del: spotcheck_loop.simps)
qed

text \<open>
  Counting the outcomes of the random source. Let a raw number be any of the
  \<open>c * |segs|\<close> numbers below \<open>c * |segs|\<close>, each as likely as the others. Every
  position of the list is drawn by \<open>c\<close> of them, so an item by \<open>c\<close> times the number of
  its positions; and the tuples of \<open>n\<close> raw numbers that draw a given sample are as many
  as the product, over the sample, of these single counts.
\<close>

lemma card_residue:
  assumes "i < L"
  shows "card {r. r < c * L \<and> r mod L = i} = (c::nat)"
proof -
  have "{r. r < c * L \<and> r mod L = i} = (\<lambda>k. k * L + i) ` {..<c}"
  proof (rule set_eqI, rule iffI)
    fix r assume "r \<in> {r. r < c * L \<and> r mod L = i}"
    then have r: "r < c * L" and m: "r mod L = i" by simp_all
    from assms r have "r div L < c"
      by (simp add: less_mult_imp_div_less)
    moreover from m have "r = (r div L) * L + i"
      by (metis div_mult_mod_eq)
    ultimately show "r \<in> (\<lambda>k. k * L + i) ` {..<c}" by blast
  next
    fix r assume "r \<in> (\<lambda>k. k * L + i) ` {..<c}"
    then obtain k where k: "k < c" and r: "r = k * L + i" by auto
    from k have "Suc k * L \<le> c * L"
      by (simp only: Suc_le_eq [symmetric] mult_le_mono1)
    with assms r have "r < c * L" by simp
    moreover from assms r have "r mod L = i" by simp
    ultimately show "r \<in> {r. r < c * L \<and> r mod L = i}" by simp
  qed
  moreover from assms have "inj_on (\<lambda>k. k * L + i) {..<c}"
    by (auto simp add: inj_on_def)
  ultimately show ?thesis
    by (simp add: card_image)
qed

lemma card_draws_of_item:
  "card {r. r < c * length segs \<and> getRandomItem segs r = Some x} = c * count_list segs x"
proof (cases "segs = []")
  case True
  then show ?thesis by simp
next
  case False
  let ?L = "length segs"
  let ?I = "{i. i < ?L \<and> segs ! i = x}"
  have "{r. r < c * ?L \<and> getRandomItem segs r = Some x} =
        (\<Union>i\<in>?I. {r. r < c * ?L \<and> r mod ?L = i})"
    using False by (auto simp add: getRandomItem_def)
  moreover have "card (\<Union>i\<in>?I. {r. r < c * ?L \<and> r mod ?L = i}) =
                 (\<Sum>i\<in>?I. card {r. r < c * ?L \<and> r mod ?L = i})"
    by (rule card_UN_disjoint) auto
  moreover have "(\<Sum>i\<in>?I. card {r. r < c * ?L \<and> r mod ?L = i}) = (\<Sum>i\<in>?I. c)"
    by (rule sum.cong) (simp_all add: card_residue)
  moreover have "?I = {i. i < ?L \<and> x = segs ! i}"
    by auto
  then have "card ?I = count_list segs x"
    by (simp only: count_list_eq_length_filter length_filter_conv_card)
  ultimately show ?thesis by simp
qed
lemma card_raw_tuples:
  "card {rs. (\<forall>r\<in>set rs. r < c * length segs) \<and> map (getRandomItem segs) rs = map Some xs} =
   prod_list (map (\<lambda>x. c * count_list segs x) xs)"
proof (induction xs)
  case Nil
  have "{rs. (\<forall>r\<in>set rs. r < c * length segs) \<and> map (getRandomItem segs) rs = map Some []} = {[]}"
    by auto
  then show ?case by simp
next
  case (Cons x xs)
  let ?A = "{r. r < c * length segs \<and> getRandomItem segs r = Some x}"
  let ?B = "{rs. (\<forall>r\<in>set rs. r < c * length segs) \<and> map (getRandomItem segs) rs = map Some xs}"
  have "{rs. (\<forall>r\<in>set rs. r < c * length segs) \<and>
             map (getRandomItem segs) rs = map Some (x # xs)} =
        (\<lambda>(r, rs). r # rs) ` (?A \<times> ?B)"
  proof (rule set_eqI, rule iffI)
    fix rs assume "rs \<in> {rs. (\<forall>r\<in>set rs. r < c * length segs) \<and>
                          map (getRandomItem segs) rs = map Some (x # xs)}"
    then obtain r rs' where "rs = r # rs'" and "r \<in> ?A" and "rs' \<in> ?B"
      by (cases rs) auto
    then show "rs \<in> (\<lambda>(r, rs). r # rs) ` (?A \<times> ?B)" by auto
  next
    fix rs assume "rs \<in> (\<lambda>(r, rs). r # rs) ` (?A \<times> ?B)"
    then show "rs \<in> {rs. (\<forall>r\<in>set rs. r < c * length segs) \<and>
                         map (getRandomItem segs) rs = map Some (x # xs)}"
      by auto
  qed
  moreover have "inj_on (\<lambda>(r, rs). r # rs) (?A \<times> ?B)"
    by (auto simp add: inj_on_def)
  ultimately have "card {rs. (\<forall>r\<in>set rs. r < c * length segs) \<and>
                            map (getRandomItem segs) rs = map Some (x # xs)} =
                   card ?A * card ?B"
    by (simp add: card_image card_cartesian_product)
  then show ?case
    by (simp add: Cons.IH card_draws_of_item)
qed

text \<open>
  C7: \<open>spotcheckSegments\<close> runs the pipeline of \<open>verifySegments\<close> over a sample of
  \<open>noSamples\<close> draws; each draw is an item of \<open>manifest.segments\<close>, chosen by its own
  raw random number from the whole list, so that items may repeat. The draws are uniform
  and independent, by counting: of the tuples of \<open>noSamples\<close> raw numbers below
  \<open>c * |segments|\<close>, those that give the sample \<open>xs\<close> are as many as the product over
  \<open>xs\<close> of \<open>c\<close> times the number of positions of each item, which is one count per
  draw, the same for every position of the list, whatever the other draws are. For
  \<open>noSamples = 0\<close> the report is empty and nothing was requested.
\<close>

theorem spotcheckSegments_sample:
  assumes "manifest v = Some m"
  shows "spotcheckSegments net rnd v verifyFn noSamples doDownload =
           Inr (verifySegments net v verifyFn
                  (map (\<lambda>k. getRandomItem (segments m) (rnd k)) [0 ..< nat noSamples]) doDownload) \<and>
         length (map (\<lambda>k. getRandomItem (segments m) (rnd k)) [0 ..< nat noSamples]) = nat noSamples \<and>
         (segments m \<noteq> [] \<longrightarrow>
            (\<forall>k < nat noSamples.
               getRandomItem (segments m) (rnd k) =
                 Some (segments m ! (rnd k mod length (segments m))) \<and>
               segments m ! (rnd k mod length (segments m)) \<in> set (segments m))) \<and>
         (length xs = nat noSamples \<longrightarrow>
            card {rs. length rs = nat noSamples \<and>
                      (\<forall>r\<in>set rs. r < c * length (segments m)) \<and>
                      spotcheck_loop (segments m) (\<lambda>k. rs ! k) noSamples 0 [] = map Some xs} =
              prod_list (map (\<lambda>x. c * count_list (segments m) x) xs)) \<and>
         (noSamples = 0 \<longrightarrow>
            spotcheckSegments net rnd v verifyFn noSamples doDownload =
              Inr (\<lparr>failed = [], ok = []\<rparr>, []))"
proof (intro conjI impI)
  show "spotcheckSegments net rnd v verifyFn noSamples doDownload =
          Inr (verifySegments net v verifyFn
                 (map (\<lambda>k. getRandomItem (segments m) (rnd k)) [0 ..< nat noSamples]) doDownload)"
    using assms by (simp add: spotcheckSegments_def spotcheck_loop_eq del: spotcheck_loop.simps)
next
  show "length (map (\<lambda>k. getRandomItem (segments m) (rnd k)) [0 ..< nat noSamples]) = nat noSamples"
    by simp
next
  assume "segments m \<noteq> []"
  then show "\<forall>k < nat noSamples.
               getRandomItem (segments m) (rnd k) =
                 Some (segments m ! (rnd k mod length (segments m))) \<and>
               segments m ! (rnd k mod length (segments m)) \<in> set (segments m)"
    by (simp add: getRandomItem_def)
next
  assume l: "length xs = nat noSamples"
  have "{rs. length rs = nat noSamples \<and>
             (\<forall>r\<in>set rs. r < c * length (segments m)) \<and>
             spotcheck_loop (segments m) (\<lambda>k. rs ! k) noSamples 0 [] = map Some xs} =
        {rs. (\<forall>r\<in>set rs. r < c * length (segments m)) \<and>
             map (getRandomItem (segments m)) rs = map Some xs}"
  proof (rule Collect_cong)
    fix rs
    show "(length rs = nat noSamples \<and>
           (\<forall>r\<in>set rs. r < c * length (segments m)) \<and>
           spotcheck_loop (segments m) (\<lambda>k. rs ! k) noSamples 0 [] = map Some xs) =
          ((\<forall>r\<in>set rs. r < c * length (segments m)) \<and>
           map (getRandomItem (segments m)) rs = map Some xs)"
    proof (cases "length rs = nat noSamples")
      case True
      then show ?thesis by (simp only: spotcheck_loop_raw simp_thms)
    next
      case False
      with l have "map (getRandomItem (segments m)) rs \<noteq> map Some xs"
        by (metis length_map)
      with False show ?thesis by simp
    qed
  qed
  then show "card {rs. length rs = nat noSamples \<and>
                       (\<forall>r\<in>set rs. r < c * length (segments m)) \<and>
                       spotcheck_loop (segments m) (\<lambda>k. rs ! k) noSamples 0 [] = map Some xs} =
             prod_list (map (\<lambda>x. c * count_list (segments m) x) xs)"
    by (simp only: card_raw_tuples)
next
  assume "noSamples = 0"
  with assms show "spotcheckSegments net rnd v verifyFn noSamples doDownload =
                     Inr (\<lparr>failed = [], ok = []\<rparr>, [])"
    by (simp add: spotcheckSegments_def verifySegments_def iteratorFromArray_def)
qed

theorem spotcheckSegments_sample_witness:
  "manifest (loaded (example_manifest ''static'' 0)) = Some (example_manifest ''static'' 0) \<and>
   segments (example_manifest ''static'' 0) \<noteq> [] \<and>
   spotcheckSegments example_network always_second (loaded (example_manifest ''static'' 0))
       None 2 False =
     Inr (verifySegments example_network (loaded (example_manifest ''static'' 0)) None
            [Some ''seg-2.m4s'', Some ''seg-2.m4s''] False) \<and>
   length [''seg-2.m4s'', ''seg-2.m4s''] = nat 2 \<and>
   card {rs. length rs = nat 2 \<and>
             (\<forall>r\<in>set rs. r < 4 * length (segments (example_manifest ''static'' 0))) \<and>
             spotcheck_loop (segments (example_manifest ''static'' 0)) (\<lambda>k. rs ! k) 2 0 [] =
               map Some [''seg-2.m4s'', ''seg-2.m4s'']} = 16 \<and>
   spotcheckSegments example_network always_second (loaded (example_manifest ''static'' 0))
       None 0 False =
     Inr (\<lparr>failed = [], ok = []\<rparr>, [])"
proof -
  let ?v = "loaded (example_manifest ''static'' 0)"
  let ?m = "example_manifest ''static'' 0"
  have m: "manifest ?v = Some ?m"
    by (simp add: loaded_def)
  have s: "segments ?m \<noteq> []"
    by (simp add: example_manifest_def)
  have l: "length [''seg-2.m4s'', ''seg-2.m4s''] = nat 2"
    by simp
  have u: "map (\<lambda>k. getRandomItem (segments ?m) (always_second k)) [0 ..< nat 2] =
             [Some ''seg-2.m4s'', Some ''seg-2.m4s'']"
    by (simp add: upt_conv_Cons getRandomItem_def example_manifest_def always_second_def)
  have p: "prod_list (map (\<lambda>x. 4 * count_list (segments ?m) x) [''seg-2.m4s'', ''seg-2.m4s'']) = 16"
    by (simp add: example_manifest_def)
  note T2 = spotcheckSegments_sample
    [where v = ?v and m = ?m and net = example_network and rnd = always_second
       and verifyFn = None and noSamples = 2 and doDownload = False
       and xs = "[''seg-2.m4s'', ''seg-2.m4s'']" and c = 4, OF m]
  note T0 = spotcheckSegments_sample
    [where v = ?v and m = ?m and net = example_network and rnd = always_second
       and verifyFn = None and noSamples = 0 and doDownload = False
       and xs = "[]" and c = 4, OF m]
  have t: "spotcheckSegments example_network always_second ?v None 2 False =
           Inr (verifySegments example_network ?v None
                  (map (\<lambda>k. getRandomItem (segments ?m) (always_second k)) [0 ..< nat 2]) False)"
    using T2 by blast
  have k: "card {rs. length rs = nat 2 \<and>
                     (\<forall>r\<in>set rs. r < 4 * length (segments ?m)) \<and>
                     spotcheck_loop (segments ?m) (\<lambda>k. rs ! k) 2 0 [] =
                       map Some [''seg-2.m4s'', ''seg-2.m4s'']} =
           prod_list (map (\<lambda>x. 4 * count_list (segments ?m) x) [''seg-2.m4s'', ''seg-2.m4s''])"
    using T2 l by blast
  have z: "spotcheckSegments example_network always_second ?v None 0 False =
           Inr (\<lparr>failed = [], ok = []\<rparr>, [])"
    using T0 by blast
  from t u z m s l k p show ?thesis by (simp only: simp_thms)
qed

text \<open>
  With replacement: every sequence of positions of the list, repeats included, is the
  sample for some outcome of the random source.
\<close>

lemma spotcheck_every_sample_possible:
  assumes "\<forall>i\<in>set idxs. i < length segs"
  shows "spotcheck_loop segs (\<lambda>k. idxs ! k) (int (length idxs)) 0 [] = map (\<lambda>i. Some (segs ! i)) idxs"
proof -
  have "map (\<lambda>k. getRandomItem segs (idxs ! k)) [0 ..< length idxs] = map (\<lambda>i. Some (segs ! i)) idxs"
  proof (rule nth_equalityI)
    show "length (map (\<lambda>k. getRandomItem segs (idxs ! k)) [0 ..< length idxs]) =
          length (map (\<lambda>i. Some (segs ! i)) idxs)" by simp
  next
    fix j assume "j < length (map (\<lambda>k. getRandomItem segs (idxs ! k)) [0 ..< length idxs])"
    then have j: "j < length idxs" by simp
    with assms have "idxs ! j < length segs" by simp
    then have "getRandomItem segs (idxs ! j) = Some (segs ! (idxs ! j))"
      by (auto simp: getRandomItem_def)
    with j show "map (\<lambda>k. getRandomItem segs (idxs ! k)) [0 ..< length idxs] ! j =
                 map (\<lambda>i. Some (segs ! i)) idxs ! j" by simp
  qed
  then show ?thesis
    by (simp add: spotcheck_loop_eq del: spotcheck_loop.simps)
qed

end
